theory Spec2Isabelle
  imports Main "HOL-Library.FSet" "HOL-Library.Sublist"
begin

section \<open>Python values and objects used by the event bus\<close>

text \<open>
  The source is \<^verbatim>\<open>src/event_bus/bus.py\<close>: two classes, \<^verbatim>\<open>TypedEventBus\<close> and
  \<^verbatim>\<open>UntypedEventBus\<close>, each holding a dict \<^verbatim>\<open>registry\<close> from event names to Python
  \<^verbatim>\<open>set\<close> objects of handlers.

  An exception is a value. \<open>KeyError\<close> is what \<^verbatim>\<open>d[k]\<close> on a dict and
  \<^verbatim>\<open>s.remove(x)\<close> on a set raise when the key or element is missing;
  \<open>RuntimeError\<close> is what the iterator of a set raises when the set has changed size
  since the iterator was made; \<open>RecursionError\<close> is what a call raises when the call
  stack is exhausted; \<open>Other\<close> stands for every other exception a handler may raise.
\<close>

datatype exc = KeyError | RuntimeError | RecursionError | Other string

text \<open>
  The outcome of a call: \<open>None\<close> when it returned, \<open>Some x\<close> when it raised \<open>x\<close>,
  together with the state it left behind (an exception does not roll anything back).
\<close>

type_synonym 's outcome = "exc option \<times> 's"

text \<open>
  A Python set is a mutable object, and the registry holds references to such objects:
  \<^verbatim>\<open>self.registry[event_name].add(func)\<close> changes the object in place, and the loop
  of \<^verbatim>\<open>emit\<close> walks the object itself, not a copy. So the set objects live in a heap,
  addressed by natural numbers; \<open>fresh\<close> is the address the next new set gets.
  A handler is a reference \<open>'h\<close> to a function, closure or bound method: hashable, and
  compared by identity.
\<close>

type_synonym addr = nat

record 'h heap =
  cells :: "addr \<Rightarrow> 'h fset"
  fresh :: addr

text \<open>\<^verbatim>\<open>{func}\<close>: a new set object with one element.\<close>

definition set_new :: "'h \<Rightarrow> 'h heap \<Rightarrow> addr \<times> 'h heap" where
  "set_new h H = (fresh H, H\<lparr>cells := (cells H)(fresh H := {|h|}), fresh := Suc (fresh H)\<rparr>)"

text \<open>\<^verbatim>\<open>s.add(func)\<close>.\<close>

definition set_add :: "addr \<Rightarrow> 'h \<Rightarrow> 'h heap \<Rightarrow> 'h heap" where
  "set_add a h H = H\<lparr>cells := (cells H)(a := finsert h (cells H a))\<rparr>"

text \<open>\<^verbatim>\<open>s.remove(func)\<close>: raises \<open>KeyError\<close> when the element is not in the set.\<close>

definition set_remove :: "addr \<Rightarrow> 'h \<Rightarrow> 'h heap \<Rightarrow> 'h heap outcome" where
  "set_remove a h H =
     (if h |\<in>| cells H a then (None, H\<lparr>cells := (cells H)(a := cells H a |-| {|h|})\<rparr>)
      else (Some KeyError, H))"

text \<open>\<^verbatim>\<open>len(s)\<close>.\<close>

definition set_len :: "addr \<Rightarrow> 'h heap \<Rightarrow> nat" where
  "set_len a H = fcard (cells H a)"

subsection \<open>The \<^verbatim>\<open>for\<close> loop over a set object\<close>

text \<open>
  \<^verbatim>\<open>for event_handler in event_handlers: body\<close> where \<^verbatim>\<open>event_handlers\<close> is a set
  object. CPython's set iterator remembers the size \<open>n\<close> the set had when the loop
  started and a position \<open>i\<close> in the set's table. Each time the loop asks for the next
  element the iterator first compares the current size of the set with \<open>n\<close> and raises
  \<open>RuntimeError\<close> when they differ; otherwise it yields the element at the next
  position, or ends the loop when the table is exhausted.

  The order in which the table holds the elements is fixed by hash values the source
  does not determine, so it is a parameter: \<open>ord S\<close> lists the elements of a set with
  contents \<open>S\<close> in table order. \<open>live s\<close> reads the current contents of the set object
  the loop walks from the state \<open>s\<close>. When a handler has changed the set and left its
  size as it was, the loop goes on at position \<open>i\<close> of the changed set's order; what
  CPython does there depends on the layout of the table.

  The first component of the result is a record of the loop's own calls: the handlers it
  has invoked, in order, each with the outcome of its call. It is an observation of the
  run, not a value the program has.
\<close>

function for_in_set ::
  "('s \<Rightarrow> 'h fset) \<Rightarrow> ('h fset \<Rightarrow> 'h list) \<Rightarrow> ('h \<Rightarrow> 's \<Rightarrow> 's outcome) \<Rightarrow> nat \<Rightarrow> nat \<Rightarrow> 's
     \<Rightarrow> ('h \<times> exc option) list \<times> 's outcome" where
  "for_in_set live ord body n i s =
     (if fcard (live s) \<noteq> n then ([], Some RuntimeError, s)
      else if i < n \<and> i < length (ord (live s)) then
        (let h = ord (live s) ! i in
         case body h s of
           (Some x, s') \<Rightarrow> ([(h, Some x)], Some x, s')
         | (None, s') \<Rightarrow>
             (let (calls, r) = for_in_set live ord body n (Suc i) s'
              in ((h, None) # calls, r)))
      else ([], None, s))"
  by pat_completeness auto
termination
  by (relation "measure (\<lambda>(live, ord, body, n, i, s). n - i)") auto

declare for_in_set.simps [simp del]


section \<open>\<^verbatim>\<open>UntypedEventBus\<close>\<close>

text \<open>
  \<^verbatim>\<open>__init__\<close> sets \<^verbatim>\<open>self.registry = {}\<close>. The record is extensible, so that the
  operations also run on a state that holds more than the bus (what the handlers of a
  program read and write).
\<close>

record 'h untyped_bus =
  registry :: "string \<rightharpoonup> addr"
  heap :: "'h heap"

definition untyped_init :: "'h untyped_bus" where
  "untyped_init = \<lparr>registry = Map.empty, heap = \<lparr>cells = (\<lambda>a. {||}), fresh = 0\<rparr>\<rparr>"

text \<open>
  \<^verbatim>\<open>self.registry.get(event_name, [])\<close>, read as a set of handlers: the contents of the
  set object registered for the name, nothing when the name is not a key.
\<close>

definition handlers :: "('h, 'z) untyped_bus_scheme \<Rightarrow> string \<Rightarrow> 'h fset" where
  "handlers s event_name =
     (case registry s event_name of None \<Rightarrow> {||} | Some a \<Rightarrow> cells (heap s) a)"

text \<open>
  \<^verbatim>\<open>
  def register(self, event_name, event_handler):
      if not self.registry.get(event_name, None):
          self.registry[event_name] = {event_handler}
      else:
          self.registry[event_name].add(event_handler)
  \<close>
  \<^verbatim>\<open>not x\<close> holds for \<^verbatim>\<open>None\<close> and for an empty set. The subscript in the else branch
  is a dict lookup, which raises \<open>KeyError\<close> on a missing key.
\<close>

definition register ::
  "string \<Rightarrow> 'h \<Rightarrow> ('h, 'z) untyped_bus_scheme \<Rightarrow> ('h, 'z) untyped_bus_scheme outcome" where
  "register event_name event_handler s =
     (if (case registry s event_name of None \<Rightarrow> True | Some a \<Rightarrow> set_len a (heap s) = 0) then
        (let (a, H) = set_new event_handler (heap s)
         in (None, s\<lparr>registry := (registry s)(event_name \<mapsto> a), heap := H\<rparr>))
      else
        (case registry s event_name of
           None \<Rightarrow> (Some KeyError, s)
         | Some a \<Rightarrow> (None, s\<lparr>heap := set_add a event_handler (heap s)\<rparr>)))"

text \<open>
  \<^verbatim>\<open>
  def unregister(self, event_name, event_handler):
      self.registry[event_name].remove(event_handler)
      if len(self.registry[event_name]) == 0:
          del self.registry[event_name]
  \<close>
\<close>

definition unregister ::
  "string \<Rightarrow> 'h \<Rightarrow> ('h, 'z) untyped_bus_scheme \<Rightarrow> ('h, 'z) untyped_bus_scheme outcome" where
  "unregister event_name event_handler s =
     (case registry s event_name of
        None \<Rightarrow> (Some KeyError, s)
      | Some a \<Rightarrow>
          (case set_remove a event_handler (heap s) of
             (Some x, H) \<Rightarrow> (Some x, s\<lparr>heap := H\<rparr>)
           | (None, H) \<Rightarrow>
               (let s1 = s\<lparr>heap := H\<rparr> in
                case registry s1 event_name of
                  None \<Rightarrow> (Some KeyError, s1)
                | Some b \<Rightarrow>
                    if set_len b (heap s1) = 0
                    then (None, s1\<lparr>registry := (registry s1)(event_name := None)\<rparr>)
                    else (None, s1))))"

text \<open>
  \<^verbatim>\<open>
  def emit(self, event_name, data=None):
      event_handlers = self.registry.get(event_name, [])
      for event_handler in event_handlers:
          event_handler(data)
  \<close>
  \<open>call h data s\<close> is what calling the handler \<open>h\<close> with one argument does to the state
  \<open>s\<close>: any Python callable, so any function. A missing name gives the empty list, over
  which the loop does nothing. \<open>emit_run\<close> keeps the loop's record of calls, \<open>emit\<close> is
  the method.
\<close>

definition emit_run ::
  "('h \<Rightarrow> 'd \<Rightarrow> ('h, 'z) untyped_bus_scheme \<Rightarrow> ('h, 'z) untyped_bus_scheme outcome)
     \<Rightarrow> ('h fset \<Rightarrow> 'h list) \<Rightarrow> string \<Rightarrow> 'd \<Rightarrow> ('h, 'z) untyped_bus_scheme
     \<Rightarrow> ('h \<times> exc option) list \<times> ('h, 'z) untyped_bus_scheme outcome" where
  "emit_run call ord event_name data s =
     (case registry s event_name of
        None \<Rightarrow> ([], None, s)
      | Some a \<Rightarrow>
          for_in_set (\<lambda>s. cells (heap s) a) ord (\<lambda>event_handler. call event_handler data)
            (set_len a (heap s)) 0 s)"

definition emit ::
  "('h \<Rightarrow> 'd \<Rightarrow> ('h, 'z) untyped_bus_scheme \<Rightarrow> ('h, 'z) untyped_bus_scheme outcome)
     \<Rightarrow> ('h fset \<Rightarrow> 'h list) \<Rightarrow> string \<Rightarrow> 'd \<Rightarrow> ('h, 'z) untyped_bus_scheme
     \<Rightarrow> ('h, 'z) untyped_bus_scheme outcome" where
  "emit call ord event_name data s = snd (emit_run call ord event_name data s)"

text \<open>The handlers an emission has invoked itself, in order.\<close>

definition invoked ::
  "('h \<times> exc option) list \<times> 's outcome \<Rightarrow> 'h list" where
  "invoked run = map fst (fst run)"

text \<open>
  Handler \<open>h\<close>, called with \<open>data\<close>, leaves the registry as it found it, whatever the
  state and however the call ends: it calls neither \<^verbatim>\<open>register\<close> nor
  \<^verbatim>\<open>unregister\<close> (nor undoes what it did).
\<close>

definition leaves_registry ::
  "('h \<Rightarrow> 'd \<Rightarrow> ('h, 'z) untyped_bus_scheme \<Rightarrow> ('h, 'z) untyped_bus_scheme outcome)
     \<Rightarrow> 'h \<Rightarrow> 'd \<Rightarrow> bool" where
  "leaves_registry call h data =
     (\<forall>s r s'. call h data s = (r, s') \<longrightarrow> registry s' = registry s \<and> heap s' = heap s)"

section \<open>\<^verbatim>\<open>TypedEventBus\<close>\<close>

text \<open>
  \<^verbatim>\<open>__init__\<close> sets \<^verbatim>\<open>self.registry = {}\<close> and \<^verbatim>\<open>self.event_handlers = dict()\<close>; no
  method reads or writes the second dict.
\<close>

record 'h typed_bus =
  t_registry :: "string \<rightharpoonup> addr"
  event_handlers :: "string \<rightharpoonup> addr"
  t_heap :: "'h heap"

definition typed_init :: "'h typed_bus" where
  "typed_init =
     \<lparr>t_registry = Map.empty, event_handlers = Map.empty,
      t_heap = \<lparr>cells = (\<lambda>a. {||}), fresh = 0\<rparr>\<rparr>"

definition t_handlers :: "('h, 'z) typed_bus_scheme \<Rightarrow> string \<Rightarrow> 'h fset" where
  "t_handlers s event_name =
     (case t_registry s event_name of None \<Rightarrow> {||} | Some a \<Rightarrow> cells (t_heap s) a)"

text \<open>
  \<^verbatim>\<open>
  def register(self, event_name, func):
      if not self.registry.get(event_name, None):
          self.registry[event_name] = {func}
      else:
          self.registry[event_name].add(func)
  \<close>
\<close>

definition t_register ::
  "string \<Rightarrow> 'h \<Rightarrow> ('h, 'z) typed_bus_scheme \<Rightarrow> ('h, 'z) typed_bus_scheme outcome" where
  "t_register event_name func s =
     (if (case t_registry s event_name of None \<Rightarrow> True | Some a \<Rightarrow> set_len a (t_heap s) = 0) then
        (let (a, H) = set_new func (t_heap s)
         in (None, s\<lparr>t_registry := (t_registry s)(event_name \<mapsto> a), t_heap := H\<rparr>))
      else
        (case t_registry s event_name of
           None \<Rightarrow> (Some KeyError, s)
         | Some a \<Rightarrow> (None, s\<lparr>t_heap := set_add a func (t_heap s)\<rparr>)))"

text \<open>
  \<^verbatim>\<open>
  def unregister(self, event_name, event_handler):
      self.registry[event_name].remove(event_handler)
      if len(self.registry[event_name]) == 0:
          del self.registry[event_name]
  \<close>
\<close>

definition t_unregister ::
  "string \<Rightarrow> 'h \<Rightarrow> ('h, 'z) typed_bus_scheme \<Rightarrow> ('h, 'z) typed_bus_scheme outcome" where
  "t_unregister event_name event_handler s =
     (case t_registry s event_name of
        None \<Rightarrow> (Some KeyError, s)
      | Some a \<Rightarrow>
          (case set_remove a event_handler (t_heap s) of
             (Some x, H) \<Rightarrow> (Some x, s\<lparr>t_heap := H\<rparr>)
           | (None, H) \<Rightarrow>
               (let s1 = s\<lparr>t_heap := H\<rparr> in
                case t_registry s1 event_name of
                  None \<Rightarrow> (Some KeyError, s1)
                | Some b \<Rightarrow>
                    if set_len b (t_heap s1) = 0
                    then (None, s1\<lparr>t_registry := (t_registry s1)(event_name := None)\<rparr>)
                    else (None, s1))))"

text \<open>
  \<^verbatim>\<open>
  def emit(self, event_name, data):
      event_handlers = self.registry.get(event_name, [])
      for event_handler in event_handlers:
          event_handler(event_name, data)
  \<close>
  Here a handler is called with two arguments, the event name and the data.
\<close>

definition t_emit_run ::
  "('h \<Rightarrow> string \<Rightarrow> 'd \<Rightarrow> ('h, 'z) typed_bus_scheme \<Rightarrow> ('h, 'z) typed_bus_scheme outcome)
     \<Rightarrow> ('h fset \<Rightarrow> 'h list) \<Rightarrow> string \<Rightarrow> 'd \<Rightarrow> ('h, 'z) typed_bus_scheme
     \<Rightarrow> ('h \<times> exc option) list \<times> ('h, 'z) typed_bus_scheme outcome" where
  "t_emit_run call ord event_name data s =
     (case t_registry s event_name of
        None \<Rightarrow> ([], None, s)
      | Some a \<Rightarrow>
          for_in_set (\<lambda>s. cells (t_heap s) a) ord
            (\<lambda>event_handler. call event_handler event_name data)
            (set_len a (t_heap s)) 0 s)"

definition t_emit ::
  "('h \<Rightarrow> string \<Rightarrow> 'd \<Rightarrow> ('h, 'z) typed_bus_scheme \<Rightarrow> ('h, 'z) typed_bus_scheme outcome)
     \<Rightarrow> ('h fset \<Rightarrow> 'h list) \<Rightarrow> string \<Rightarrow> 'd \<Rightarrow> ('h, 'z) typed_bus_scheme
     \<Rightarrow> ('h, 'z) typed_bus_scheme outcome" where
  "t_emit call ord event_name data s = snd (t_emit_run call ord event_name data s)"

definition t_leaves_registry ::
  "('h \<Rightarrow> string \<Rightarrow> 'd \<Rightarrow> ('h, 'z) typed_bus_scheme \<Rightarrow> ('h, 'z) typed_bus_scheme outcome)
     \<Rightarrow> 'h \<Rightarrow> string \<Rightarrow> 'd \<Rightarrow> bool" where
  "t_leaves_registry call h event_name data =
     (\<forall>s r s'. call h event_name data s = (r, s') \<longrightarrow>
        t_registry s' = t_registry s \<and> t_heap s' = t_heap s)"

section \<open>Sequences of \<^verbatim>\<open>register\<close> and \<^verbatim>\<open>unregister\<close> calls on both classes\<close>

datatype 'h change = Reg string 'h | Unreg string 'h

text \<open>
  A caller that makes the calls one after the other and goes on after a \<open>KeyError\<close>
  (it catches it): the state after all of them.
\<close>

fun u_change :: "'h change \<Rightarrow> ('h, 'z) untyped_bus_scheme \<Rightarrow> ('h, 'z) untyped_bus_scheme outcome" where
  "u_change (Reg e h) s = register e h s"
| "u_change (Unreg e h) s = unregister e h s"

fun t_change :: "'h change \<Rightarrow> ('h, 'z) typed_bus_scheme \<Rightarrow> ('h, 'z) typed_bus_scheme outcome" where
  "t_change (Reg e h) s = t_register e h s"
| "t_change (Unreg e h) s = t_unregister e h s"

fun u_changes :: "'h change list \<Rightarrow> ('h, 'z) untyped_bus_scheme \<Rightarrow> ('h, 'z) untyped_bus_scheme" where
  "u_changes [] s = s"
| "u_changes (c # cs) s = u_changes cs (snd (u_change c s))"

fun t_changes :: "'h change list \<Rightarrow> ('h, 'z) typed_bus_scheme \<Rightarrow> ('h, 'z) typed_bus_scheme" where
  "t_changes [] s = s"
| "t_changes (c # cs) s = t_changes cs (snd (t_change c s))"

text \<open>
  The two buses hold the same registry: the same keys, bound to the same set objects
  with the same contents.
\<close>

definition same_registry :: "('h, 'y) untyped_bus_scheme \<Rightarrow> ('h, 'z) typed_bus_scheme \<Rightarrow> bool" where
  "same_registry s t = (registry s = t_registry t \<and> heap s = t_heap t)"

text \<open>Two outcomes agree: both return or both raise the same exception, in states that agree.\<close>

definition same_outcome ::
  "('h, 'y) untyped_bus_scheme outcome \<Rightarrow> ('h, 'z) typed_bus_scheme outcome \<Rightarrow> bool" where
  "same_outcome p q = (fst p = fst q \<and> same_registry (snd p) (snd q))"

section \<open>Handlers that call the bus\<close>

text \<open>
  The handlers of \<^verbatim>\<open>src/main.py\<close> are closures over \<^verbatim>\<open>bus.emit\<close>: called with the
  data, they print, count, and emit further events on the same bus while the emission
  that called them is still running. A handler here is a straight-line program over the
  bus's three methods, \<^verbatim>\<open>raise\<close>, \<^verbatim>\<open>print\<close> and \<^verbatim>\<open>try: ... except Exception: pass\<close>;
  \<open>body h d\<close> is the program of handler \<open>h\<close> called with data \<open>d\<close>.
\<close>

datatype ('h, 'd) stmt =
  Emit string 'd
| Register string 'h
| Unregister string 'h
| Raise exc
| Print 'd
| Try "('h, 'd) stmt list"

text \<open>
  What a run leaves to observe: the printed values, and a trace with an entry when a
  handler is entered and one when it returns (none when it raises).
\<close>

datatype 'h event = Enter 'h | Leave 'h

record ('h, 'd) world = "'h untyped_bus" +
  printed :: "'d list"
  trace :: "'h event list"

definition world_init :: "('h, 'd) world" where
  "world_init =
     \<lparr>registry = Map.empty, heap = \<lparr>cells = (\<lambda>a. {||}), fresh = 0\<rparr>, printed = [], trace = []\<rparr>"

text \<open>
  One statement, and a block of statements in order up to the first that raises;
  \<open>em\<close> is the bus's bound \<^verbatim>\<open>emit\<close> method the closure holds. \<open>Try\<close> runs its block
  and swallows what it raises: every exception of this model is an \<^verbatim>\<open>Exception\<close>.
\<close>

fun stmt_run ::
  "(string \<Rightarrow> 'd \<Rightarrow> ('h, 'd) world \<Rightarrow> ('h, 'd) world outcome) \<Rightarrow> ('h, 'd) stmt
     \<Rightarrow> ('h, 'd) world \<Rightarrow> ('h, 'd) world outcome"
  and exec ::
  "(string \<Rightarrow> 'd \<Rightarrow> ('h, 'd) world \<Rightarrow> ('h, 'd) world outcome) \<Rightarrow> ('h, 'd) stmt list
     \<Rightarrow> ('h, 'd) world \<Rightarrow> ('h, 'd) world outcome" where
  "stmt_run em (Emit e d) s = em e d s"
| "stmt_run em (Register e h) s = register e h s"
| "stmt_run em (Unregister e h) s = unregister e h s"
| "stmt_run em (Raise x) s = (Some x, s)"
| "stmt_run em (Print d) s = (None, s\<lparr>printed := printed s @ [d]\<rparr>)"
| "stmt_run em (Try cs) s = (None, snd (exec em cs s))"
| "exec em [] s = (None, s)"
| "exec em (c # cs) s =
     (case stmt_run em c s of
        (Some x, s') \<Rightarrow> (Some x, s')
      | (None, s') \<Rightarrow> exec em cs s')"

text \<open>
  Calling handler \<open>h\<close> with \<open>k\<close> further nested handler calls left on the call stack.
  With none left the call raises \<open>RecursionError\<close>; otherwise the body runs, and an
  \<^verbatim>\<open>emit\<close> inside it is the bus's own \<^verbatim>\<open>emit\<close>, one call deeper.
\<close>

primrec call_handler ::
  "('h \<Rightarrow> 'd \<Rightarrow> ('h, 'd) stmt list) \<Rightarrow> ('h fset \<Rightarrow> 'h list) \<Rightarrow> nat \<Rightarrow> 'h \<Rightarrow> 'd
     \<Rightarrow> ('h, 'd) world \<Rightarrow> ('h, 'd) world outcome" where
  "call_handler body ord 0 h d s = (Some RecursionError, s)"
| "call_handler body ord (Suc k) h d s =
     (case exec (emit (call_handler body ord k) ord) (body h d) (s\<lparr>trace := trace s @ [Enter h]\<rparr>) of
        (Some x, s') \<Rightarrow> (Some x, s')
      | (None, s') \<Rightarrow> (None, s'\<lparr>trace := trace s' @ [Leave h]\<rparr>))"

text \<open>\<^verbatim>\<open>bus.emit(event_name, data)\<close> in a program whose handlers are given by \<open>body\<close>.\<close>

definition bus_emit ::
  "('h \<Rightarrow> 'd \<Rightarrow> ('h, 'd) stmt list) \<Rightarrow> ('h fset \<Rightarrow> 'h list) \<Rightarrow> nat \<Rightarrow> string \<Rightarrow> 'd
     \<Rightarrow> ('h, 'd) world \<Rightarrow> ('h, 'd) world outcome" where
  "bus_emit body ord k event_name data s = emit (call_handler body ord k) ord event_name data s"

text \<open>No handler of the program calls \<^verbatim>\<open>register\<close> or \<^verbatim>\<open>unregister\<close>.\<close>

fun changes_registry :: "('h, 'd) stmt \<Rightarrow> bool" where
  "changes_registry (Register e h) = True"
| "changes_registry (Unregister e h) = True"
| "changes_registry (Try cs) = list_ex changes_registry cs"
| "changes_registry c = False"

definition no_registry_calls :: "('h \<Rightarrow> 'd \<Rightarrow> ('h, 'd) stmt list) \<Rightarrow> bool" where
  "no_registry_calls body = (\<forall>h d. list_all (\<lambda>c. \<not> changes_registry c) (body h d))"

text \<open>
  A state reached from another with the registry untouched: the registry and the set
  objects are the same, and the trace has only grown.
\<close>

definition extends :: "('h, 'd) world \<Rightarrow> ('h, 'd) world \<Rightarrow> bool" where
  "extends s s' = (registry s' = registry s \<and> heap s' = heap s \<and> prefix (trace s) (trace s'))"

text \<open>
  The program of \<^verbatim>\<open>src/main.py\<close>, with handlers numbered in the order \<^verbatim>\<open>main\<close>
  registers them: 0 is the closure made by \<^verbatim>\<open>closure_security_event_handler\<close> (it
  emits \<^verbatim>\<open>log_event\<close> with a message built from the data; its counter is left out),
  1 is \<^verbatim>\<open>log_event_handler\<close> (it prints the data), 2 is the closure made by
  \<^verbatim>\<open>closure_api_call_handler\<close> (it emits \<^verbatim>\<open>log_event\<close> with the data).
\<close>

definition main_body :: "nat \<Rightarrow> string \<Rightarrow> (nat, string) stmt list" where
  "main_body h data =
     (if h = 0 then [Emit ''log_event'' (''security event occurred: '' @ data)]
      else if h = 1 then [Print data]
      else [Emit ''log_event'' data])"

definition main_registered :: "(nat, string) world" where
  "main_registered =
     snd (register ''api_call'' 2
       (snd (register ''log_event'' 1
         (snd (register ''security_event'' 0 world_init)))))"



subsection \<open>Sequences of calls made on a bus\<close>

datatype ('h, 'd) bus_call =
  Call_register string 'h
| Call_unregister string 'h
| Call_emit string 'd

fun do_call ::
  "('h \<Rightarrow> 'd \<Rightarrow> ('h, 'd) stmt list) \<Rightarrow> ('h fset \<Rightarrow> 'h list) \<Rightarrow> nat \<Rightarrow> ('h, 'd) bus_call
     \<Rightarrow> ('h, 'd) world \<Rightarrow> ('h, 'd) world outcome" where
  "do_call body ord k (Call_register e h) s = register e h s"
| "do_call body ord k (Call_unregister e h) s = unregister e h s"
| "do_call body ord k (Call_emit e d) s = bus_emit body ord k e d s"

text \<open>
  The state after a sequence of calls by a caller that goes on after an exception; the
  states a caller reaches that stops at the first exception are among these.
\<close>

fun do_calls ::
  "('h \<Rightarrow> 'd \<Rightarrow> ('h, 'd) stmt list) \<Rightarrow> ('h fset \<Rightarrow> 'h list) \<Rightarrow> nat \<Rightarrow> ('h, 'd) bus_call list
     \<Rightarrow> ('h, 'd) world \<Rightarrow> ('h, 'd) world" where
  "do_calls body ord k [] s = s"
| "do_calls body ord k (c # cs) s = do_calls body ord k cs (snd (do_call body ord k c s))"

text \<open>
  The invariant of the registry: a name is a key exactly when its handler set is not
  empty.
\<close>

definition registry_inv :: "('h, 'z) untyped_bus_scheme \<Rightarrow> bool" where
  "registry_inv s = (\<forall>e. (e \<in> dom (registry s)) = (handlers s e \<noteq> {||}))"

text \<open>
  What holds of every state a bus reaches besides: two names never share a set object,
  every set object in use was allocated, and none is empty.
\<close>

definition well_formed :: "('h, 'z) untyped_bus_scheme \<Rightarrow> bool" where
  "well_formed s =
     ((\<forall>e e' a. registry s e = Some a \<and> registry s e' = Some a \<longrightarrow> e = e')
      \<and> (\<forall>e a. registry s e = Some a \<longrightarrow> a < fresh (heap s) \<and> cells (heap s) a \<noteq> {||}))"

section \<open>The loop, one step at a time\<close>

lemma for_in_set_changed:
  "fcard (live s) \<noteq> n \<Longrightarrow> for_in_set live ord body n i s = ([], Some RuntimeError, s)"
  by (subst for_in_set.simps) simp

lemma for_in_set_done:
  "fcard (live s) = n \<Longrightarrow> \<not> (i < n \<and> i < length (ord (live s))) \<Longrightarrow>
   for_in_set live ord body n i s = ([], None, s)"
  by (subst for_in_set.simps) auto

lemma for_in_set_raise:
  "fcard (live s) = n \<Longrightarrow> i < n \<Longrightarrow> i < length (ord (live s)) \<Longrightarrow>
   body (ord (live s) ! i) s = (Some x, s') \<Longrightarrow>
   for_in_set live ord body n i s = ([(ord (live s) ! i, Some x)], Some x, s')"
  by (subst for_in_set.simps) simp

lemma for_in_set_next:
  "fcard (live s) = n \<Longrightarrow> i < n \<Longrightarrow> i < length (ord (live s)) \<Longrightarrow>
   body (ord (live s) ! i) s = (None, s') \<Longrightarrow>
   for_in_set live ord body n i s =
     ((ord (live s) ! i, None) # fst (for_in_set live ord body n (Suc i) s'),
      snd (for_in_set live ord body n (Suc i) s'))"
  by (subst for_in_set.simps) (simp add: split_beta)

lemma for_in_set_preserves:
  "\<forall>h s r s'. P s \<and> h \<in> set (ord (live s)) \<and> body h s = (r, s') \<longrightarrow> P s' \<Longrightarrow> P s \<Longrightarrow>
   P (snd (snd (for_in_set live ord body n i s)))"
proof (induction live ord body n i s rule: for_in_set.induct)
  case (1 live ord body n i s)
  show ?case
  proof (cases "fcard (live s) = n \<and> i < n \<and> i < length (ord (live s))")
    case False
    then show ?thesis using "1.prems"(2)
      by (cases "fcard (live s) = n") (simp_all add: for_in_set_done for_in_set_changed)
  next
    case True
    obtain r s' where b: "body (ord (live s) ! i) s = (r, s')" by (cases "body (ord (live s) ! i) s")
    have "ord (live s) ! i \<in> set (ord (live s))" using True by simp
    then have Ps': "P s'" using "1.prems" b by blast
    show ?thesis
    proof (cases r)
      case None
      have "P (snd (snd (for_in_set live ord body n (Suc i) s')))"
        using "1.IH"[OF _ _ refl _ refl "1.prems"(1) Ps'] True b None by auto
      then show ?thesis using True b None by (simp add: for_in_set_next)
    next
      case (Some x)
      then show ?thesis using True b Ps' by (simp add: for_in_set_raise)
    qed
  qed
qed

lemma for_in_set_calls:
  "for_in_set live ord body n i s = (calls, r, s') \<Longrightarrow> j < length calls \<Longrightarrow>
   snd (calls ! j) = Some x \<Longrightarrow> Suc j = length calls \<and> r = Some x"
proof (induction live ord body n i s arbitrary: calls r s' j rule: for_in_set.induct)
  case (1 live ord body n i s)
  show ?case
  proof (cases "fcard (live s) = n \<and> i < n \<and> i < length (ord (live s))")
    case False
    then show ?thesis using "1.prems"
      by (cases "fcard (live s) = n") (simp_all add: for_in_set_done for_in_set_changed)
  next
    case True
    obtain r1 s1 where b: "body (ord (live s) ! i) s = (r1, s1)" by (cases "body (ord (live s) ! i) s")
    show ?thesis
    proof (cases r1)
      case None
      obtain calls2 r2 s2 where rest: "for_in_set live ord body n (Suc i) s1 = (calls2, r2, s2)"
        by (cases "for_in_set live ord body n (Suc i) s1") auto
      have eq: "calls = (ord (live s) ! i, None) # calls2 \<and> r = r2"
        using "1.prems"(1) True b None rest by (simp add: for_in_set_next)
      from "1.prems"(2,3) eq obtain j' where j': "j = Suc j'" by (cases j) auto
      have "Suc j' = length calls2 \<and> r2 = Some x"
        using "1.IH"[OF _ _ refl _ refl rest, of j'] True b None "1.prems"(2,3) eq j' by auto
      then show ?thesis using eq j' by simp
    next
      case (Some y)
      have "calls = [(ord (live s) ! i, Some y)] \<and> r = Some y"
        using "1.prems"(1) True b Some by (auto simp: for_in_set_raise)
      then show ?thesis using "1.prems"(2,3) by simp
    qed
  qed
qed



section \<open>Table orders\<close>





section \<open>The methods by cases\<close>

lemma unregister_cases:
  "unregister e h s =
     (case registry s e of
        None \<Rightarrow> (Some KeyError, s)
      | Some a \<Rightarrow>
          if h |\<notin>| cells (heap s) a then (Some KeyError, s)
          else if cells (heap s) a |-| {|h|} = {||}
          then (None, s\<lparr>heap := (heap s)\<lparr>cells := (cells (heap s))(a := cells (heap s) a |-| {|h|})\<rparr>,
                          registry := (registry s)(e := None)\<rparr>)
          else (None, s\<lparr>heap := (heap s)\<lparr>cells := (cells (heap s))(a := cells (heap s) a |-| {|h|})\<rparr>\<rparr>))"
  by (simp add: unregister_def set_remove_def set_len_def Let_def split: option.splits)

lemma t_unregister_cases:
  "t_unregister e h s =
     (case t_registry s e of
        None \<Rightarrow> (Some KeyError, s)
      | Some a \<Rightarrow>
          if h |\<notin>| cells (t_heap s) a then (Some KeyError, s)
          else if cells (t_heap s) a |-| {|h|} = {||}
          then (None, s\<lparr>t_heap := (t_heap s)\<lparr>cells := (cells (t_heap s))(a := cells (t_heap s) a |-| {|h|})\<rparr>,
                          t_registry := (t_registry s)(e := None)\<rparr>)
          else (None, s\<lparr>t_heap := (t_heap s)\<lparr>cells := (cells (t_heap s))(a := cells (t_heap s) a |-| {|h|})\<rparr>\<rparr>))"
  by (simp add: t_unregister_def set_remove_def set_len_def Let_def split: option.splits)

lemma register_cases:
  "register e h s =
     (case registry s e of
        None \<Rightarrow> (None, s\<lparr>registry := (registry s)(e \<mapsto> fresh (heap s)),
                   heap := (heap s)\<lparr>cells := (cells (heap s))(fresh (heap s) := {|h|}),
                                   fresh := Suc (fresh (heap s))\<rparr>\<rparr>)
      | Some a \<Rightarrow>
          if cells (heap s) a = {||}
          then (None, s\<lparr>registry := (registry s)(e \<mapsto> fresh (heap s)),
                   heap := (heap s)\<lparr>cells := (cells (heap s))(fresh (heap s) := {|h|}),
                                   fresh := Suc (fresh (heap s))\<rparr>\<rparr>)
          else (None, s\<lparr>heap := (heap s)\<lparr>cells := (cells (heap s))(a := finsert h (cells (heap s) a))\<rparr>\<rparr>))"
  by (simp add: register_def set_new_def set_add_def set_len_def split: option.splits)

lemma t_register_cases:
  "t_register e h s =
     (case t_registry s e of
        None \<Rightarrow> (None, s\<lparr>t_registry := (t_registry s)(e \<mapsto> fresh (t_heap s)),
                   t_heap := (t_heap s)\<lparr>cells := (cells (t_heap s))(fresh (t_heap s) := {|h|}),
                                   fresh := Suc (fresh (t_heap s))\<rparr>\<rparr>)
      | Some a \<Rightarrow>
          if cells (t_heap s) a = {||}
          then (None, s\<lparr>t_registry := (t_registry s)(e \<mapsto> fresh (t_heap s)),
                   t_heap := (t_heap s)\<lparr>cells := (cells (t_heap s))(fresh (t_heap s) := {|h|}),
                                   fresh := Suc (fresh (t_heap s))\<rparr>\<rparr>)
          else (None, s\<lparr>t_heap := (t_heap s)\<lparr>cells := (cells (t_heap s))(a := finsert h (cells (t_heap s) a))\<rparr>\<rparr>))"
  by (simp add: t_register_def set_new_def set_add_def set_len_def split: option.splits)

section \<open>Emission when the handlers leave the registry alone\<close>

lemma emit_run_leaves_registry:
  assumes "\<forall>h \<in> set (ord (handlers s e)). leaves_registry call h d"
  shows "registry (snd (snd (emit_run call ord e d s))) = registry s
         \<and> heap (snd (snd (emit_run call ord e d s))) = heap s"
proof (cases "registry s e")
  case None
  then show ?thesis by (simp add: emit_run_def)
next
  case (Some a)
  let ?P = "\<lambda>s'. registry s' = registry s \<and> heap s' = heap s"
  have "?P (snd (snd (for_in_set (\<lambda>s. cells (heap s) a) ord (\<lambda>h. call h d) (set_len a (heap s)) 0 s)))"
  proof (rule for_in_set_preserves[where P = ?P])
    show "\<forall>h s1 r s'. ?P s1 \<and> h \<in> set (ord (cells (heap s1) a)) \<and> call h d s1 = (r, s') \<longrightarrow> ?P s'"
      using assms Some by (auto simp: handlers_def leaves_registry_def)
  qed simp
  then show ?thesis using Some by (simp add: emit_run_def)
qed





lemma for_in_set_invoked_frame:
  "\<forall>h \<in> set (map fst (fst (for_in_set live ord body n i s))).
      \<forall>s1 r s2. body h s1 = (r, s2) \<longrightarrow> F s2 = F s1 \<Longrightarrow>
   F (snd (snd (for_in_set live ord body n i s))) = F s"
proof (induction live ord body n i s rule: for_in_set.induct)
  case (1 live ord body n i s)
  show ?case
  proof (cases "fcard (live s) = n \<and> i < n \<and> i < length (ord (live s))")
    case False
    then show ?thesis
      by (cases "fcard (live s) = n") (simp_all add: for_in_set_done for_in_set_changed)
  next
    case True
    let ?h = "ord (live s) ! i"
    obtain r1 s1 where b: "body ?h s = (r1, s1)" by (cases "body ?h s")
    show ?thesis
    proof (cases r1)
      case None
      have unfold: "for_in_set live ord body n i s =
          ((?h, None) # fst (for_in_set live ord body n (Suc i) s1),
           snd (for_in_set live ord body n (Suc i) s1))"
        using True b None by (simp add: for_in_set_next[where s' = s1])
      have F1: "F s1 = F s" using "1.prems" unfold b by simp
      have rest: "\<forall>h \<in> set (map fst (fst (for_in_set live ord body n (Suc i) s1))).
          \<forall>s1 r s2. body h s1 = (r, s2) \<longrightarrow> F s2 = F s1"
        using "1.prems" unfold by simp
      have "F (snd (snd (for_in_set live ord body n (Suc i) s1))) = F s1"
        using "1.IH"[OF _ _ refl _ refl rest] True b None by auto
      then show ?thesis using unfold F1 by simp
    next
      case (Some x)
      have unfold: "for_in_set live ord body n i s = ([(?h, Some x)], Some x, s1)"
        using True b Some by (simp add: for_in_set_raise[where s' = s1])
      have "F s1 = F s" using "1.prems" unfold b by simp
      then show ?thesis using unfold by simp
    qed
  qed
qed

lemma emit_run_absent:
  "registry s e = None \<Longrightarrow> emit_run call ord e d s = ([], None, s)"
  by (simp add: emit_run_def)

lemma t_emit_run_absent:
  "t_registry s e = None \<Longrightarrow> t_emit_run call ord e d s = ([], None, s)"
  by (simp add: t_emit_run_def)

lemma emit_run_invoked_frame:
  assumes "\<forall>h \<in> set (invoked (emit_run call ord e d s)). leaves_registry call h d"
  shows "registry (snd (snd (emit_run call ord e d s))) = registry s
         \<and> heap (snd (snd (emit_run call ord e d s))) = heap s"
proof (cases "registry s e")
  case None
  show ?thesis by (simp only: emit_run_absent[OF None] snd_conv)
next
  case (Some a)
  let ?run = "for_in_set (\<lambda>s. cells (heap s) a) ord (\<lambda>h. call h d) (set_len a (heap s)) 0 s"
  let ?F = "\<lambda>s. (registry s, heap s)"
  have eq: "emit_run call ord e d s = ?run" using Some by (simp add: emit_run_def)
  have inv0: "\<forall>h \<in> set (map fst (fst ?run)). leaves_registry call h d"
    using assms unfolding eq invoked_def .
  have inv: "\<forall>h \<in> set (map fst (fst ?run)). \<forall>s1 r s2. call h d s1 = (r, s2) \<longrightarrow> ?F s2 = ?F s1"
  proof (intro ballI allI impI)
    fix h s1 r s2
    assume "h \<in> set (map fst (fst ?run))" and c: "call h d s1 = (r, s2)"
    then have "leaves_registry call h d" using inv0 by blast
    then show "?F s2 = ?F s1" using c unfolding leaves_registry_def by blast
  qed
  have "?F (snd (snd ?run)) = ?F s"
    by (rule for_in_set_invoked_frame[where F = ?F and body = "\<lambda>h. call h d", OF inv])
  then show ?thesis unfolding eq by simp
qed

lemma t_emit_run_invoked_frame:
  assumes "\<forall>h \<in> set (invoked (t_emit_run call ord e d s)). t_leaves_registry call h e d"
  shows "t_registry (snd (snd (t_emit_run call ord e d s))) = t_registry s
         \<and> t_heap (snd (snd (t_emit_run call ord e d s))) = t_heap s"
proof (cases "t_registry s e")
  case None
  show ?thesis by (simp only: t_emit_run_absent[OF None] snd_conv)
next
  case (Some a)
  let ?run = "for_in_set (\<lambda>s. cells (t_heap s) a) ord (\<lambda>h. call h e d) (set_len a (t_heap s)) 0 s"
  let ?F = "\<lambda>s. (t_registry s, t_heap s)"
  have eq: "t_emit_run call ord e d s = ?run" using Some by (simp add: t_emit_run_def)
  have inv0: "\<forall>h \<in> set (map fst (fst ?run)). t_leaves_registry call h e d"
    using assms unfolding eq invoked_def .
  have inv: "\<forall>h \<in> set (map fst (fst ?run)). \<forall>s1 r s2. call h e d s1 = (r, s2) \<longrightarrow> ?F s2 = ?F s1"
  proof (intro ballI allI impI)
    fix h s1 r s2
    assume "h \<in> set (map fst (fst ?run))" and c: "call h e d s1 = (r, s2)"
    then have "t_leaves_registry call h e d" using inv0 by blast
    then show "?F s2 = ?F s1" using c unfolding t_leaves_registry_def by blast
  qed
  have "?F (snd (snd ?run)) = ?F s"
    by (rule for_in_set_invoked_frame[where F = ?F and body = "\<lambda>h. call h e d", OF inv])
  then show ?thesis unfolding eq by simp
qed



section \<open>Handler programs that leave the registry alone\<close>

lemma extends_refl: "extends s s"
  by (simp add: extends_def)

lemma extends_trans: "extends s1 s2 \<Longrightarrow> extends s2 s3 \<Longrightarrow> extends s1 s3"
  by (auto simp: extends_def)

lemma emit_extends:
  assumes "\<forall>h s1 r s2. call h d s1 = (r, s2) \<longrightarrow> extends s1 s2"
  shows "extends s (snd (emit call ord e d s))"
proof (cases "registry s e")
  case None
  then show ?thesis by (simp add: emit_def emit_run_def extends_refl)
next
  case (Some a)
  have "extends s (snd (snd (for_in_set (\<lambda>s. cells (heap s) a) ord (\<lambda>h. call h d) (set_len a (heap s)) 0 s)))"
  proof (rule for_in_set_preserves[where P = "extends s"])
    show "\<forall>h s1 r s'. extends s s1 \<and> h \<in> set (ord (cells (heap s1) a)) \<and> call h d s1 = (r, s')
            \<longrightarrow> extends s s'"
      using assms extends_trans by blast
  qed (rule extends_refl)
  then show ?thesis using Some by (simp add: emit_def emit_run_def)
qed

lemma stmt_exec_extends:
  "(\<forall>e d s. extends s (snd (em e d s))) \<Longrightarrow> \<not> changes_registry c \<Longrightarrow>
     extends s (snd (stmt_run em c s))"
  "(\<forall>e d s. extends s (snd (em e d s))) \<Longrightarrow> list_all (\<lambda>c. \<not> changes_registry c) cs \<Longrightarrow>
     extends s (snd (exec em cs s))"
proof (induction em c s and em cs s rule: stmt_run_exec.induct)
  case (1 em e d s)
  then show ?case by simp
next
  case (2 em e h s)
  then show ?case by simp
next
  case (3 em e h s)
  then show ?case by simp
next
  case (4 em x s)
  then show ?case by (simp add: extends_refl)
next
  case (5 em d s)
  then show ?case by (simp add: extends_def)
next
  case (6 em cs s)
  have "list_all (\<lambda>c. \<not> changes_registry c) cs"
    using "6.prems"(2) by (simp add: list_all_iff list_ex_iff)
  then show ?case using "6.IH" "6.prems"(1) by simp
next
  case (7 em s)
  then show ?case by (simp add: extends_refl)
next
  case (8 em c cs s)
  have c: "\<not> changes_registry c" and rest: "list_all (\<lambda>c. \<not> changes_registry c) cs"
    using "8.prems"(2) by simp_all
  obtain r s1 where st: "stmt_run em c s = (r, s1)" by (cases "stmt_run em c s")
  have e1: "extends s s1" using "8.IH"(1)[OF "8.prems"(1) c] st by simp
  show ?case
  proof (cases r)
    case None
    have "extends s1 (snd (exec em cs s1))"
      using "8.IH"(2)[OF st[symmetric] None "8.prems"(1) rest] .
    then show ?thesis using st None e1 extends_trans by auto
  next
    case (Some x)
    then show ?thesis using st e1 by simp
  qed
qed

lemma exec_extends:
  assumes em: "\<forall>e d s. extends s (snd (em e d s))"
  shows "list_all (\<lambda>c. \<not> changes_registry c) cs \<Longrightarrow> extends s (snd (exec em cs s))"
  using stmt_exec_extends(2)[OF em] .

lemma call_handler_extends:
  assumes nr: "no_registry_calls body"
  shows "extends s (snd (call_handler body ord k h d s))"
proof (induction k arbitrary: s h d)
  case 0
  show ?case by (simp add: extends_refl)
next
  case (Suc k)
  let ?s0 = "s\<lparr>trace := trace s @ [Enter h]\<rparr>"
  let ?em = "emit (call_handler body ord k) ord"
  have calls: "\<forall>h s1 r s2. call_handler body ord k h d' s1 = (r, s2) \<longrightarrow> extends s1 s2" for d'
    using Suc.IH by (metis snd_conv)
  have em: "\<forall>e d s. extends s (snd (?em e d s))"
  proof (intro allI)
    fix e d' s'
    show "extends s' (snd (?em e d' s'))"
      by (rule emit_extends[where call = "call_handler body ord k" and d = d', OF calls])
  qed
  have pure: "list_all (\<lambda>c. \<not> changes_registry c) (body h d)"
    using nr by (simp add: no_registry_calls_def)
  have b: "extends ?s0 (snd (exec ?em (body h d) ?s0))"
    by (rule exec_extends[OF em pure])
  have a: "extends s ?s0" by (simp add: extends_def)
  obtain r s1 where ex: "exec ?em (body h d) ?s0 = (r, s1)" by (cases "exec ?em (body h d) ?s0")
  have "extends s s1" using a b ex extends_trans by fastforce
  moreover have "extends s1 (s1\<lparr>trace := trace s1 @ [Leave h]\<rparr>)" by (simp add: extends_def)
  ultimately show ?case using ex extends_trans by (cases r) auto
qed

lemma call_handler_leaves_registry:
  "no_registry_calls body \<Longrightarrow> leaves_registry (call_handler body ord k) h d"
  using call_handler_extends[of body _ ord k h d]
  by (auto simp: leaves_registry_def extends_def) (metis snd_conv)+

section \<open>The two classes in step\<close>

lemma same_register:
  "same_registry s t \<Longrightarrow> same_outcome (register e h s) (t_register e h t)"
  by (auto simp: same_registry_def same_outcome_def register_cases t_register_cases
      split: option.splits)

lemma same_unregister:
  "same_registry s t \<Longrightarrow> same_outcome (unregister e h s) (t_unregister e h t)"
  by (auto simp: same_registry_def same_outcome_def unregister_cases t_unregister_cases
      split: option.splits)

lemma same_change:
  "same_registry s t \<Longrightarrow> same_outcome (u_change c s) (t_change c t)"
  by (cases c) (simp_all add: same_register same_unregister)

lemma same_changes:
  "same_registry s t \<Longrightarrow> same_registry (u_changes cs s) (t_changes cs t)"
proof (induction cs arbitrary: s t)
  case Nil
  then show ?case by simp
next
  case (Cons c cs)
  have "same_registry (snd (u_change c s)) (snd (t_change c t))"
    using same_change[OF Cons.prems, of c] by (simp add: same_outcome_def)
  then show ?case using Cons.IH by simp
qed

lemma same_init: "same_registry untyped_init typed_init"
  by (simp add: same_registry_def untyped_init_def typed_init_def)

lemma same_handlers: "same_registry s t \<Longrightarrow> handlers s e = t_handlers t e"
  by (auto simp: same_registry_def handlers_def t_handlers_def split: option.splits)

lemma for_in_set_same:
  assumes body: "\<forall>h s t. R s t \<longrightarrow> fst (b1 h s) = fst (b2 h t) \<and> R (snd (b1 h s)) (snd (b2 h t))"
    and live: "\<forall>s t. R s t \<longrightarrow> live1 s = live2 t"
  shows "R s t \<Longrightarrow>
    fst (for_in_set live1 ord b1 n i s) = fst (for_in_set live2 ord b2 n i t)
    \<and> fst (snd (for_in_set live1 ord b1 n i s)) = fst (snd (for_in_set live2 ord b2 n i t))
    \<and> R (snd (snd (for_in_set live1 ord b1 n i s))) (snd (snd (for_in_set live2 ord b2 n i t)))"
proof (induction "n - i" arbitrary: i s t)
  case 0
  have l: "live1 s = live2 t" using live "0.prems" by blast
  show ?case
  proof (cases "fcard (live1 s) = n")
    case True
    then show ?thesis using 0 l by (simp add: for_in_set_done)
  next
    case False
    then show ?thesis using 0 l by (simp add: for_in_set_changed)
  qed
next
  case (Suc m)
  have l: "live1 s = live2 t" using live Suc.prems by blast
  show ?case
  proof (cases "fcard (live1 s) = n")
    case False
    then show ?thesis using Suc.prems l by (simp add: for_in_set_changed)
  next
    case True
    show ?thesis
    proof (cases "i < n \<and> i < length (ord (live1 s))")
      case False
      then show ?thesis using True Suc.prems l by (simp add: for_in_set_done)
    next
      case inr: True
      let ?h = "ord (live1 s) ! i"
      obtain r1 s1 where c1: "b1 ?h s = (r1, s1)" by (cases "b1 ?h s")
      obtain r2 t1 where c2: "b2 ?h t = (r2, t1)" by (cases "b2 ?h t")
      have both: "fst (b1 ?h s) = fst (b2 ?h t) \<and> R (snd (b1 ?h s)) (snd (b2 ?h t))"
        using body Suc.prems by blast
      have rr: "r1 = r2" using both c1 c2 by simp
      have R1: "R s1 t1" using both c1 c2 by simp
      show ?thesis
      proof (cases r1)
        case None
        have m: "m = n - Suc i" using Suc.hyps(2) by simp
        note IH = Suc.hyps(1)[OF m R1]
        show ?thesis using None rr True inr l c1 c2 IH
          by (simp add: for_in_set_next[where s' = s1] for_in_set_next[where s' = t1])
      next
        case (Some x)
        then show ?thesis using rr True inr l c1 c2 R1
          by (simp add: for_in_set_raise[where s' = s1] for_in_set_raise[where s' = t1])
      qed
    qed
  qed
qed

lemma same_emit_run:
  assumes calls: "\<forall>h s1 t1. same_registry s1 t1 \<longrightarrow> same_outcome (ucall h d s1) (tcall h e d t1)"
    and st: "same_registry s t"
  shows "fst (emit_run ucall ord e d s) = fst (t_emit_run tcall ord e d t)
    \<and> same_outcome (snd (emit_run ucall ord e d s)) (snd (t_emit_run tcall ord e d t))"
proof (cases "registry s e")
  case None
  then show ?thesis using st by (simp add: emit_run_def t_emit_run_def same_registry_def same_outcome_def)
next
  case (Some a)
  have t: "t_registry t e = Some a" and hp: "heap s = t_heap t"
    using Some st by (simp_all add: same_registry_def)
  have "fst (for_in_set (\<lambda>s. cells (heap s) a) ord (\<lambda>h. ucall h d) (set_len a (heap s)) 0 s)
      = fst (for_in_set (\<lambda>s. cells (t_heap s) a) ord (\<lambda>h. tcall h e d) (set_len a (heap s)) 0 t)
    \<and> fst (snd (for_in_set (\<lambda>s. cells (heap s) a) ord (\<lambda>h. ucall h d) (set_len a (heap s)) 0 s))
      = fst (snd (for_in_set (\<lambda>s. cells (t_heap s) a) ord (\<lambda>h. tcall h e d) (set_len a (heap s)) 0 t))
    \<and> same_registry (snd (snd (for_in_set (\<lambda>s. cells (heap s) a) ord (\<lambda>h. ucall h d) (set_len a (heap s)) 0 s)))
        (snd (snd (for_in_set (\<lambda>s. cells (t_heap s) a) ord (\<lambda>h. tcall h e d) (set_len a (heap s)) 0 t)))"
  proof (rule for_in_set_same[where R = same_registry, OF _ _ st])
    show "\<forall>h s t. same_registry s t \<longrightarrow> fst (ucall h d s) = fst (tcall h e d t)
            \<and> same_registry (snd (ucall h d s)) (snd (tcall h e d t))"
      using calls by (simp add: same_outcome_def)
    show "\<forall>s t. same_registry s t \<longrightarrow> cells (heap s) a = cells (t_heap t) a"
      by (simp add: same_registry_def)
  qed
  then show ?thesis using Some t hp
    by (simp add: emit_run_def t_emit_run_def same_outcome_def)
qed

section \<open>Well-formed states\<close>

lemma well_formed_inv: "well_formed s \<Longrightarrow> registry_inv s"
  by (auto simp: well_formed_def registry_inv_def handlers_def split: option.splits)

lemma well_formed_register:
  assumes wf: "well_formed s"
  shows "well_formed (snd (register e h s))"
proof -
  have inj: "\<And>e1 e2 a. registry s e1 = Some a \<Longrightarrow> registry s e2 = Some a \<Longrightarrow> e1 = e2"
    and alloc: "\<And>e1 a. registry s e1 = Some a \<Longrightarrow> a < fresh (heap s)"
    and full: "\<And>e1 a. registry s e1 = Some a \<Longrightarrow> cells (heap s) a \<noteq> {||}"
    using wf unfolding well_formed_def by blast+
  show ?thesis
  proof (cases "registry s e")
    case None
    have new: "snd (register e h s) =
        s\<lparr>registry := (registry s)(e \<mapsto> fresh (heap s)),
          heap := (heap s)\<lparr>cells := (cells (heap s))(fresh (heap s) := {|h|}),
                          fresh := Suc (fresh (heap s))\<rparr>\<rparr>"
      using None by (simp add: register_cases)
    show ?thesis unfolding new well_formed_def
      using inj alloc full by (auto simp: less_Suc_eq dest: alloc)
  next
    case (Some a)
    have ne: "cells (heap s) a \<noteq> {||}" using full[OF Some] .
    have upd: "snd (register e h s) =
        s\<lparr>heap := (heap s)\<lparr>cells := (cells (heap s))(a := finsert h (cells (heap s) a))\<rparr>\<rparr>"
      using Some ne by (simp add: register_cases)
    show ?thesis unfolding upd well_formed_def
      using inj alloc full by auto
  qed
qed

lemma well_formed_unregister:
  assumes wf: "well_formed s"
  shows "well_formed (snd (unregister e h s))"
proof -
  have inj: "\<And>e1 e2 a. registry s e1 = Some a \<Longrightarrow> registry s e2 = Some a \<Longrightarrow> e1 = e2"
    and alloc: "\<And>e1 a. registry s e1 = Some a \<Longrightarrow> a < fresh (heap s)"
    and full: "\<And>e1 a. registry s e1 = Some a \<Longrightarrow> cells (heap s) a \<noteq> {||}"
    using wf unfolding well_formed_def by blast+
  show ?thesis
  proof (cases "registry s e")
    case None
    then show ?thesis using wf by (simp add: unregister_cases)
  next
    case (Some a)
    show ?thesis
    proof (cases "h |\<in>| cells (heap s) a")
      case False
      then show ?thesis using wf Some by (simp add: unregister_cases)
    next
      case True
      show ?thesis
      proof (cases "cells (heap s) a |-| {|h|} = {||}")
        case empty: True
        have del: "snd (unregister e h s) =
            s\<lparr>heap := (heap s)\<lparr>cells := (cells (heap s))(a := cells (heap s) a |-| {|h|})\<rparr>,
              registry := (registry s)(e := None)\<rparr>"
          using Some True empty by (simp add: unregister_cases)
        show ?thesis unfolding del well_formed_def
          using inj alloc full Some by (auto split: if_splits)
      next
        case False
        have upd: "snd (unregister e h s) =
            s\<lparr>heap := (heap s)\<lparr>cells := (cells (heap s))(a := cells (heap s) a |-| {|h|})\<rparr>\<rparr>"
          using Some True False by (simp add: unregister_cases)
        show ?thesis unfolding upd well_formed_def
          using inj alloc full False by auto
      qed
    qed
  qed
qed

lemma well_formed_init: "well_formed world_init"
  by (simp add: well_formed_def world_init_def)

lemma well_formed_emit:
  assumes "\<forall>h s1 r s2. well_formed s1 \<and> call h d s1 = (r, s2) \<longrightarrow> well_formed s2"
    and wf: "well_formed s"
  shows "well_formed (snd (emit call ord e d s))"
proof (cases "registry s e")
  case None
  then show ?thesis using wf by (simp add: emit_def emit_run_def)
next
  case (Some a)
  have "well_formed (snd (snd (for_in_set (\<lambda>s. cells (heap s) a) ord (\<lambda>h. call h d) (set_len a (heap s)) 0 s)))"
  proof (rule for_in_set_preserves[where P = well_formed])
    show "\<forall>h s1 r s'. well_formed s1 \<and> h \<in> set (ord (cells (heap s1) a)) \<and> call h d s1 = (r, s')
            \<longrightarrow> well_formed s'"
      using assms(1) by blast
  qed (rule wf)
  then show ?thesis using Some by (simp add: emit_def emit_run_def)
qed

lemma well_formed_stmt_exec:
  "(\<forall>e d s. well_formed s \<longrightarrow> well_formed (snd (em e d s))) \<Longrightarrow> well_formed s \<Longrightarrow>
     well_formed (snd (stmt_run em c s))"
  "(\<forall>e d s. well_formed s \<longrightarrow> well_formed (snd (em e d s))) \<Longrightarrow> well_formed s \<Longrightarrow>
     well_formed (snd (exec em cs s))"
proof (induction em c s and em cs s rule: stmt_run_exec.induct)
  case (1 em e d s)
  then show ?case by simp
next
  case (2 em e h s)
  then show ?case by (simp add: well_formed_register)
next
  case (3 em e h s)
  then show ?case by (simp add: well_formed_unregister)
next
  case (4 em x s)
  then show ?case by simp
next
  case (5 em d s)
  then show ?case by (simp add: well_formed_def)
next
  case (6 em cs s)
  then show ?case by simp
next
  case (7 em s)
  then show ?case by simp
next
  case (8 em c cs s)
  obtain r s1 where st: "stmt_run em c s = (r, s1)" by (cases "stmt_run em c s")
  have w1: "well_formed s1" using "8.IH"(1)[OF "8.prems"] st by simp
  show ?case
  proof (cases r)
    case None
    have "well_formed (snd (exec em cs s1))"
      using "8.IH"(2)[OF st[symmetric] None "8.prems"(1) w1] .
    then show ?thesis using st None by simp
  next
    case (Some x)
    then show ?thesis using st w1 by simp
  qed
qed

lemma well_formed_exec:
  assumes em: "\<forall>e d s. well_formed s \<longrightarrow> well_formed (snd (em e d s))"
  shows "well_formed s \<Longrightarrow> well_formed (snd (exec em cs s))"
  using well_formed_stmt_exec(2)[OF em] .

lemma well_formed_call_handler:
  "well_formed s \<Longrightarrow> well_formed (snd (call_handler body ord k h d s))"
proof (induction k arbitrary: s h d)
  case 0
  then show ?case by simp
next
  case (Suc k)
  let ?s0 = "s\<lparr>trace := trace s @ [Enter h]\<rparr>"
  let ?em = "emit (call_handler body ord k) ord"
  have calls: "\<forall>h s1 r s2. well_formed s1 \<and> call_handler body ord k h d' s1 = (r, s2) \<longrightarrow> well_formed s2" for d'
    using Suc.IH by (metis snd_conv)
  have em: "\<forall>e d s. well_formed s \<longrightarrow> well_formed (snd (?em e d s))"
  proof (intro allI impI)
    fix e d' and s' :: "('a, 'b) world"
    assume "well_formed s'"
    then show "well_formed (snd (?em e d' s'))"
      by (rule well_formed_emit[where call = "call_handler body ord k" and d = d', OF calls])
  qed
  have w0: "well_formed ?s0" using Suc.prems by (simp add: well_formed_def)
  have w1: "well_formed (snd (exec ?em (body h d) ?s0))"
    by (rule well_formed_exec[OF em w0])
  obtain r s1 where ex: "exec ?em (body h d) ?s0 = (r, s1)" by (cases "exec ?em (body h d) ?s0")
  have "well_formed s1" using w1 ex by simp
  moreover then have "well_formed (s1\<lparr>trace := trace s1 @ [Leave h]\<rparr>)" by (simp add: well_formed_def)
  ultimately show ?case using ex by (cases r) auto
qed

lemma well_formed_do_call:
  "well_formed s \<Longrightarrow> well_formed (snd (do_call body ord k c s))"
proof (cases c)
  case (Call_emit e d)
  assume wf: "well_formed s"
  have calls: "\<forall>h s1 r s2. well_formed s1 \<and> call_handler body ord k h d s1 = (r, s2) \<longrightarrow> well_formed s2"
    using well_formed_call_handler by (metis snd_conv)
  have "well_formed (snd (emit (call_handler body ord k) ord e d s))"
    by (rule well_formed_emit[where call = "call_handler body ord k" and d = d, OF calls wf])
  then show ?thesis using Call_emit by (simp add: bus_emit_def)
qed (simp_all add: well_formed_register well_formed_unregister)

lemma well_formed_do_calls:
  "well_formed s \<Longrightarrow> well_formed (do_calls body ord k cs s)"
  by (induction cs arbitrary: s) (simp_all add: well_formed_do_call)

section \<open>Every handler of a completed emission was called\<close>










section \<open>Failure of \<^verbatim>\<open>unregister\<close>\<close>

text \<open>
  C1. \<^verbatim>\<open>unregister(e, h)\<close> raises exactly when \<open>e\<close> is not a key of the registry or \<open>h\<close>
  is not in the handler set of \<open>e\<close>, and what it raises is \<open>KeyError\<close>, Python's
  not-found error; when both are present it returns and the handler set of \<open>e\<close> is the
  old one without \<open>h\<close>. The same holds in both classes.
\<close>

theorem unregister_not_found:
  "((fst (unregister e h s) \<noteq> None) = (e \<notin> dom (registry s) \<or> h |\<notin>| handlers s e))
   \<and> (fst (unregister e h s) \<noteq> None \<longrightarrow> fst (unregister e h s) = Some KeyError)
   \<and> (e \<in> dom (registry s) \<and> h |\<in>| handlers s e \<longrightarrow>
        fst (unregister e h s) = None
        \<and> handlers (snd (unregister e h s)) e = handlers s e |-| {|h|})
   \<and> ((fst (t_unregister e h t) \<noteq> None) = (e \<notin> dom (t_registry t) \<or> h |\<notin>| t_handlers t e))
   \<and> (fst (t_unregister e h t) \<noteq> None \<longrightarrow> fst (t_unregister e h t) = Some KeyError)
   \<and> (e \<in> dom (t_registry t) \<and> h |\<in>| t_handlers t e \<longrightarrow>
        fst (t_unregister e h t) = None
        \<and> t_handlers (snd (t_unregister e h t)) e = t_handlers t e |-| {|h|})"
  by (auto simp: unregister_cases t_unregister_cases handlers_def t_handlers_def
      split: option.splits)

theorem unregister_not_found_witness:
  "''ping'' \<in> dom (registry (snd (register ''ping'' (1::nat) untyped_init)))
   \<and> (1::nat) |\<in>| handlers (snd (register ''ping'' 1 untyped_init)) ''ping''
   \<and> fst (unregister ''ping'' (1::nat) (snd (register ''ping'' 1 untyped_init))) = None
   \<and> handlers (snd (unregister ''ping'' (1::nat) (snd (register ''ping'' 1 untyped_init)))) ''ping''
       = handlers (snd (register ''ping'' (1::nat) untyped_init)) ''ping'' |-| {|1|}
   \<and> ''ping'' \<in> dom (t_registry (snd (t_register ''ping'' (1::nat) typed_init)))
   \<and> (1::nat) |\<in>| t_handlers (snd (t_register ''ping'' 1 typed_init)) ''ping''
   \<and> fst (t_unregister ''ping'' (1::nat) (snd (t_register ''ping'' 1 typed_init))) = None
   \<and> fst (unregister ''pong'' (1::nat) (snd (register ''ping'' 1 untyped_init))) = Some KeyError
   \<and> fst (unregister ''ping'' (2::nat) (snd (register ''ping'' 1 untyped_init))) = Some KeyError"
proof -
  let ?s = "snd (register ''ping'' (1::nat) untyped_init)"
  let ?t = "snd (t_register ''ping'' (1::nat) typed_init)"
  have a: "''ping'' \<in> dom (registry ?s) \<and> 1 |\<in>| handlers ?s ''ping''"
    by (simp add: register_cases untyped_init_def handlers_def)
  have b: "''ping'' \<in> dom (t_registry ?t) \<and> 1 |\<in>| t_handlers ?t ''ping''"
    by (simp add: t_register_cases typed_init_def t_handlers_def)
  have c: "''pong'' \<notin> dom (registry ?s)"
    by (simp add: register_cases untyped_init_def)
  have d: "2 |\<notin>| handlers ?s ''ping''"
    by (simp add: register_cases untyped_init_def handlers_def)
  have u1: "fst (unregister ''ping'' 1 ?s) = None
      \<and> handlers (snd (unregister ''ping'' 1 ?s)) ''ping'' = handlers ?s ''ping'' |-| {|1|}"
    using a unregister_not_found[of "''ping''" 1 ?s ?t] by simp
  have t1: "fst (t_unregister ''ping'' 1 ?t) = None"
    using b unregister_not_found[of "''ping''" 1 ?s ?t] by simp
  have u2: "fst (unregister ''pong'' 1 ?s) = Some KeyError"
    using c unregister_not_found[of "''pong''" 1 ?s ?t] by simp
  have u3: "fst (unregister ''ping'' 2 ?s) = Some KeyError"
    using d unregister_not_found[of "''ping''" 2 ?s ?t] by simp
  show ?thesis using a b u1 t1 u2 u3 by simp
qed

text \<open>
  C8. When \<^verbatim>\<open>unregister(e, h)\<close> raises, the state after the call is the state before
  it: the failed call changes nothing, in either class.
\<close>

theorem unregister_failure_atomic:
  "(fst (unregister e h s) \<noteq> None \<longrightarrow> snd (unregister e h s) = s)
   \<and> (fst (t_unregister e h t) \<noteq> None \<longrightarrow> snd (t_unregister e h t) = t)"
  by (simp add: unregister_cases t_unregister_cases split: option.splits)

theorem unregister_failure_atomic_witness:
  "fst (unregister ''pong'' (1::nat) (snd (register ''ping'' 1 untyped_init))) \<noteq> None
   \<and> snd (unregister ''pong'' (1::nat) (snd (register ''ping'' 1 untyped_init)))
       = snd (register ''ping'' 1 untyped_init)
   \<and> fst (t_unregister ''pong'' (1::nat) (snd (t_register ''ping'' 1 typed_init))) \<noteq> None
   \<and> snd (t_unregister ''pong'' (1::nat) (snd (t_register ''ping'' 1 typed_init)))
       = snd (t_register ''ping'' 1 typed_init)"
proof -
  let ?s = "snd (register ''ping'' (1::nat) untyped_init)"
  let ?t = "snd (t_register ''ping'' (1::nat) typed_init)"
  have a: "fst (unregister ''pong'' 1 ?s) \<noteq> None"
    by (simp add: unregister_cases register_cases untyped_init_def)
  have b: "fst (t_unregister ''pong'' 1 ?t) \<noteq> None"
    by (simp add: t_unregister_cases t_register_cases typed_init_def)
  show ?thesis
    using a b unregister_failure_atomic[of "''pong''" 1 ?s ?t] by simp
qed

section \<open>Registering and unregistering\<close>

text \<open>
  C5. In a state where \<open>e\<close> has no handlers, \<^verbatim>\<open>register(e, h)\<close> followed by
  \<^verbatim>\<open>unregister(e, h)\<close> both return, and \<open>e\<close> is not a key of the registry afterwards.
\<close>

theorem register_unregister_roundtrip:
  "handlers s e = {||} \<Longrightarrow>
   fst (register e h s) = None
   \<and> fst (unregister e h (snd (register e h s))) = None
   \<and> e \<notin> dom (registry (snd (unregister e h (snd (register e h s)))))"
  by (auto simp: unregister_cases register_cases handlers_def split: option.splits)

theorem register_unregister_roundtrip_witness:
  "handlers (untyped_init :: nat untyped_bus) ''ping'' = {||}
   \<and> fst (register ''ping'' (1::nat) untyped_init) = None
   \<and> fst (unregister ''ping'' (1::nat) (snd (register ''ping'' 1 untyped_init))) = None
   \<and> ''ping'' \<notin> dom (registry (snd (unregister ''ping'' (1::nat) (snd (register ''ping'' 1 untyped_init)))))"
proof -
  have a: "handlers (untyped_init :: nat untyped_bus) ''ping'' = {||}"
    by (simp add: handlers_def untyped_init_def)
  show ?thesis using a register_unregister_roundtrip[OF a, of 1] by simp
qed

section \<open>Emission\<close>

text \<open>
  C4. When \<open>e\<close> is not a key of the registry, \<^verbatim>\<open>emit(e, d)\<close> returns without raising,
  in the state it was called in, and has invoked no handler: whatever the handlers are
  and whatever the table order.
\<close>

theorem emit_unregistered_noop:
  "e \<notin> dom (registry s) \<Longrightarrow>
   emit call ord e d s = (None, s) \<and> invoked (emit_run call ord e d s) = []"
  by (auto simp: emit_def emit_run_def invoked_def split: option.splits)

theorem emit_unregistered_noop_witness:
  "''unused'' \<notin> dom (registry (untyped_init :: nat untyped_bus))
   \<and> emit (\<lambda>h d s. (Some (Other ''boom''), s)) sorted_list_of_fset ''unused'' (42::nat)
         (untyped_init :: nat untyped_bus) = (None, untyped_init)
   \<and> invoked (emit_run (\<lambda>h d s. (Some (Other ''boom''), s)) sorted_list_of_fset ''unused'' (42::nat)
         (untyped_init :: nat untyped_bus)) = []"
proof -
  have a: "''unused'' \<notin> dom (registry (untyped_init :: nat untyped_bus))"
    by (simp add: untyped_init_def)
  show ?thesis
    using a emit_unregistered_noop[OF a, of "\<lambda>h d s. (Some (Other ''boom''), s)" sorted_list_of_fset 42]
    by simp
qed

text \<open>
  C6. The loop of \<^verbatim>\<open>emit\<close> has no \<^verbatim>\<open>try\<close>: when a handler invoked by an emission
  raises \<open>x\<close>, that handler is the last one the emission invokes, and \<^verbatim>\<open>emit\<close> itself
  raises \<open>x\<close>, in the state the handler left.
\<close>

theorem handler_exception_propagates:
  "emit_run call ord e d s = (calls, r, s') \<Longrightarrow> j < length calls \<Longrightarrow> snd (calls ! j) = Some x \<Longrightarrow>
   Suc j = length calls \<and> emit call ord e d s = (Some x, s')"
proof -
  assume run: "emit_run call ord e d s = (calls, r, s')" and j: "j < length calls"
    and x: "snd (calls ! j) = Some x"
  show ?thesis
  proof (cases "registry s e")
    case None
    then show ?thesis using run j by (simp add: emit_run_def)
  next
    case (Some a)
    then have "for_in_set (\<lambda>s. cells (heap s) a) ord (\<lambda>h. call h d) (set_len a (heap s)) 0 s
                 = (calls, r, s')"
      using run by (simp add: emit_run_def)
    from for_in_set_calls[OF this j x] show ?thesis using run by (simp add: emit_def)
  qed
qed

theorem handler_exception_propagates_witness:
  "invoked (emit_run (\<lambda>h d s. (if h = (0::nat) then Some (Other ''boom'') else None, s))
       sorted_list_of_fset ''evt'' ()
       (snd (register ''evt'' (1::nat) (snd (register ''evt'' 0 untyped_init))))) = [0]
   \<and> fst (emit (\<lambda>h d s. (if h = (0::nat) then Some (Other ''boom'') else None, s))
       sorted_list_of_fset ''evt'' ()
       (snd (register ''evt'' (1::nat) (snd (register ''evt'' 0 untyped_init))))) = Some (Other ''boom'')"
proof -
  let ?call = "\<lambda>(h::nat) (d::unit) (s::nat untyped_bus). (if h = 0 then Some (Other ''boom'') else None, s)"
  let ?s = "snd (register ''evt'' (1::nat) (snd (register ''evt'' 0 untyped_init)))"
  let ?run = "emit_run ?call sorted_list_of_fset ''evt'' () ?s"
  have calls: "fst ?run = [(0, Some (Other ''boom''))]" by code_simp
  have run: "?run = (fst ?run, fst (snd ?run), snd (snd ?run))" by simp
  have j: "0 < length (fst ?run)" using calls by simp
  have x: "snd (fst ?run ! 0) = Some (Other ''boom'')" using calls by simp
  from handler_exception_propagates[OF run j x]
  show ?thesis using calls by (simp add: invoked_def)
qed

text \<open>
  C9. \<^verbatim>\<open>emit\<close> writes nothing to the registry itself: when every handler the
  emission invokes leaves the registry alone, the registry and its set objects are the
  same after \<^verbatim>\<open>emit\<close> as before, however the emission ends. This holds in both classes, and for
  a program none of whose handlers calls \<^verbatim>\<open>register\<close> or \<^verbatim>\<open>unregister\<close>, at any
  depth of nested emissions.
\<close>

theorem emit_leaves_registry:
  "((\<forall>h \<in> set (invoked (emit_run call ord e d s)). leaves_registry call h d) \<longrightarrow>
      registry (snd (emit call ord e d s)) = registry s
      \<and> heap (snd (emit call ord e d s)) = heap s)
   \<and> ((\<forall>h \<in> set (invoked (t_emit_run tcall ord e d t)). t_leaves_registry tcall h e d) \<longrightarrow>
      t_registry (snd (t_emit tcall ord e d t)) = t_registry t
      \<and> t_heap (snd (t_emit tcall ord e d t)) = t_heap t)
   \<and> (no_registry_calls body \<longrightarrow>
      registry (snd (bus_emit body ord k e' d' w)) = registry w
      \<and> heap (snd (bus_emit body ord k e' d' w)) = heap w)"
proof -
  have dsl: "registry (snd (bus_emit body ord k e' d' w)) = registry w
      \<and> heap (snd (bus_emit body ord k e' d' w)) = heap w" if nr: "no_registry_calls body"
    using emit_run_leaves_registry[of ord w e' "call_handler body ord k" d']
      call_handler_leaves_registry[OF nr]
    by (simp add: bus_emit_def emit_def)
  show ?thesis
    using emit_run_invoked_frame[of call ord e d s] t_emit_run_invoked_frame[of tcall ord e d t] dsl
    unfolding emit_def t_emit_def by blast
qed

theorem emit_leaves_registry_witness:
  "leaves_registry (\<lambda>h d s. (None, s) :: nat untyped_bus outcome) (1::nat) ()
   \<and> registry (snd (emit (\<lambda>h d s. (None, s)) sorted_list_of_fset ''evt'' ()
        (snd (register ''evt'' (1::nat) untyped_init))))
       = registry (snd (register ''evt'' (1::nat) untyped_init))
   \<and> t_registry (snd (t_emit (\<lambda>h e d s. (None, s)) sorted_list_of_fset ''evt'' ()
        (snd (t_register ''evt'' (1::nat) typed_init))))
       = t_registry (snd (t_register ''evt'' (1::nat) typed_init))
   \<and> no_registry_calls main_body
   \<and> registry (snd (bus_emit main_body sorted_list_of_fset 5 ''api_call'' ''GET'' main_registered))
       = registry main_registered
   \<and> heap (snd (bus_emit main_body sorted_list_of_fset 5 ''api_call'' ''GET'' main_registered))
       = heap main_registered"
proof -
  let ?call = "\<lambda>(h::nat) (d::unit) (s::nat untyped_bus). (None :: exc option, s)"
  let ?tcall = "\<lambda>(h::nat) (e::string) (d::unit) (s::nat typed_bus). (None :: exc option, s)"
  let ?s = "snd (register ''evt'' (1::nat) untyped_init)"
  let ?t = "snd (t_register ''evt'' (1::nat) typed_init)"
  have a: "\<forall>h \<in> set (invoked (emit_run ?call sorted_list_of_fset ''evt'' () ?s)). leaves_registry ?call h ()"
    by (simp add: leaves_registry_def)
  have b: "\<forall>h \<in> set (invoked (t_emit_run ?tcall sorted_list_of_fset ''evt'' () ?t)).
             t_leaves_registry ?tcall h ''evt'' ()"
    by (simp add: t_leaves_registry_def)
  have c: "no_registry_calls main_body"
    by (simp add: no_registry_calls_def main_body_def)
  have d: "leaves_registry ?call 1 ()" by (simp add: leaves_registry_def)
  note T = emit_leaves_registry[where call = ?call and ord = sorted_list_of_fset and e = "''evt''"
      and d = "()" and s = ?s and tcall = ?tcall and t = ?t and body = main_body and k = 5
      and e' = "''api_call''" and d' = "''GET''" and w = main_registered]
  have c1: "registry (snd (emit ?call sorted_list_of_fset ''evt'' () ?s)) = registry ?s"
    by (rule T[THEN conjunct1, THEN mp, OF a, THEN conjunct1])
  have c2: "t_registry (snd (t_emit ?tcall sorted_list_of_fset ''evt'' () ?t)) = t_registry ?t"
    by (rule T[THEN conjunct2, THEN conjunct1, THEN mp, OF b, THEN conjunct1])
  have c3: "registry (snd (bus_emit main_body sorted_list_of_fset 5 ''api_call'' ''GET'' main_registered))
       = registry main_registered
     \<and> heap (snd (bus_emit main_body sorted_list_of_fset 5 ''api_call'' ''GET'' main_registered))
       = heap main_registered"
    by (rule T[THEN conjunct2, THEN conjunct2, THEN mp, OF c])
  show ?thesis using d c1 c2 c c3 by (intro conjI) simp_all
qed

section \<open>Registering twice\<close>




section \<open>The invariant of the registry\<close>

text \<open>
  C2. After any sequence of \<^verbatim>\<open>register\<close>, \<^verbatim>\<open>unregister\<close> and \<^verbatim>\<open>emit\<close> calls on a
  new bus, a name is a key of the registry exactly when its handler set is not empty:
  whatever the handlers of the program do through the bus's methods while an emission
  runs, whatever the table order and the stack depth, and whether the calls return or
  raise. And an \<^verbatim>\<open>unregister\<close> that returns and takes the last handler of a name
  deletes the key.
\<close>

theorem registry_invariant:
  "registry_inv (do_calls body ord k cs world_init)
   \<and> (fst (unregister e h s) = None \<and> handlers s e |-| {|h|} = {||}
        \<longrightarrow> e \<notin> dom (registry (snd (unregister e h s))))"
proof -
  have "registry_inv (do_calls body ord k cs world_init)"
    by (rule well_formed_inv[OF well_formed_do_calls[OF well_formed_init]])
  moreover have "e \<notin> dom (registry (snd (unregister e h s)))"
    if "fst (unregister e h s) = None" "handlers s e |-| {|h|} = {||}"
    using that by (auto simp: unregister_cases handlers_def split: option.splits if_splits)
  ultimately show ?thesis by blast
qed

theorem registry_invariant_witness:
  "registry_inv
     (do_calls (\<lambda>h d. if h = (0::nat) then [Unregister ''a'' 0, Register ''b'' 1, Emit ''b'' d] else [Print d])
        sorted_list_of_fset 5
        [Call_register ''a'' 0, Call_register ''a'' 1, Call_emit ''a'' ''x'', Call_unregister ''zz'' 7,
         Call_unregister ''a'' 1]
        world_init)
   \<and> fst (unregister ''ping'' (1::nat) (snd (register ''ping'' 1 untyped_init))) = None
   \<and> handlers (snd (register ''ping'' (1::nat) untyped_init)) ''ping'' |-| {|1|} = {||}
   \<and> ''ping'' \<notin> dom (registry (snd (unregister ''ping'' (1::nat) (snd (register ''ping'' 1 untyped_init)))))"
proof -
  let ?body = "\<lambda>(h::nat) (d::string). if h = 0 then [Unregister ''a'' 0, Register ''b'' 1, Emit ''b'' d] else [Print d]"
  let ?cs = "[Call_register ''a'' (0::nat), Call_register ''a'' 1, Call_emit ''a'' ''x'', Call_unregister ''zz'' 7,
         Call_unregister ''a'' 1]"
  let ?s = "snd (register ''ping'' (1::nat) untyped_init)"
  note T = registry_invariant[of ?body sorted_list_of_fset 5 ?cs "''ping''" 1 ?s]
  have a: "fst (unregister ''ping'' 1 ?s) = None"
    by (simp add: unregister_cases register_cases untyped_init_def)
  have b: "handlers ?s ''ping'' |-| {|1|} = {||}"
    by (simp add: register_cases untyped_init_def handlers_def)
  have c: "''ping'' \<notin> dom (registry (snd (unregister ''ping'' 1 ?s)))"
    by (rule T[THEN conjunct2, THEN mp, OF conjI[OF a b]])
  show ?thesis using T[THEN conjunct1] a b c by (intro conjI)
qed

section \<open>The two classes compared\<close>

text \<open>
  C10. The same sequence of \<^verbatim>\<open>register\<close> and \<^verbatim>\<open>unregister\<close> calls on a new
  \<^verbatim>\<open>UntypedEventBus\<close> and on a new \<^verbatim>\<open>TypedEventBus\<close> leaves the same registry: the
  same keys and the same handler sets, each call returning or raising alike. From
  registries that are the same, the two \<^verbatim>\<open>emit\<close> methods invoke the same handlers in
  the same order with the same outcomes, when a handler called with \<open>(data)\<close> by the
  one and with \<open>(event_name, data)\<close> by the other behaves alike: the call is the only
  difference.
\<close>

theorem typed_untyped_equivalent:
  "same_registry (u_changes cs untyped_init) (t_changes cs typed_init)
   \<and> dom (registry (u_changes cs untyped_init)) = dom (t_registry (t_changes cs typed_init))
   \<and> (\<forall>e. handlers (u_changes cs untyped_init) e = t_handlers (t_changes cs typed_init) e)
   \<and> (same_registry s t \<longrightarrow> same_outcome (u_change c s) (t_change c t))
   \<and> (same_registry s t
        \<and> (\<forall>h s1 t1. same_registry s1 t1 \<longrightarrow> same_outcome (ucall h d s1) (tcall h e d t1))
        \<longrightarrow> fst (emit_run ucall ord e d s) = fst (t_emit_run tcall ord e d t)
          \<and> invoked (emit_run ucall ord e d s) = invoked (t_emit_run tcall ord e d t)
          \<and> same_outcome (emit ucall ord e d s) (t_emit tcall ord e d t))"
proof -
  have seq: "same_registry (u_changes cs untyped_init) (t_changes cs typed_init)"
    by (rule same_changes[OF same_init])
  have keys: "dom (registry (u_changes cs untyped_init)) = dom (t_registry (t_changes cs typed_init))"
    using seq by (simp add: same_registry_def)
  have sets: "\<forall>e. handlers (u_changes cs untyped_init) e = t_handlers (t_changes cs typed_init) e"
    using same_handlers[OF seq] by simp
  have one: "same_outcome (u_change c s) (t_change c t)" if "same_registry s t"
    using that by (rule same_change)
  have em: "fst (emit_run ucall ord e d s) = fst (t_emit_run tcall ord e d t)
          \<and> invoked (emit_run ucall ord e d s) = invoked (t_emit_run tcall ord e d t)
          \<and> same_outcome (emit ucall ord e d s) (t_emit tcall ord e d t)"
    if st: "same_registry s t"
      and calls: "\<forall>h s1 t1. same_registry s1 t1 \<longrightarrow> same_outcome (ucall h d s1) (tcall h e d t1)"
    using same_emit_run[where ucall = ucall and tcall = tcall and d = d and e = e and ord = ord,
        OF calls st]
    by (simp add: invoked_def emit_def t_emit_def)
  show ?thesis using seq keys sets one em by blast
qed

theorem typed_untyped_equivalent_witness:
  "same_registry (u_changes [Reg ''evt'' (1::nat), Reg ''evt'' 2, Unreg ''evt'' 1, Unreg ''nope'' 1] untyped_init)
     (t_changes [Reg ''evt'' (1::nat), Reg ''evt'' 2, Unreg ''evt'' 1, Unreg ''nope'' 1] typed_init)
   \<and> same_outcome
        (u_change (Unreg ''nope'' (1::nat)) (u_changes [Reg ''evt'' (1::nat), Reg ''evt'' 2] untyped_init))
        (t_change (Unreg ''nope'' (1::nat)) (t_changes [Reg ''evt'' (1::nat), Reg ''evt'' 2] typed_init))
   \<and> invoked (emit_run (\<lambda>h d s. (if h = 2 then Some (Other d) else None, s)) sorted_list_of_fset
        ''evt'' ''x'' (u_changes [Reg ''evt'' (1::nat), Reg ''evt'' 2] untyped_init))
     = invoked (t_emit_run (\<lambda>h e d s. (if h = 2 then Some (Other d) else None, s)) sorted_list_of_fset
        ''evt'' ''x'' (t_changes [Reg ''evt'' (1::nat), Reg ''evt'' 2] typed_init))
   \<and> same_outcome
       (emit (\<lambda>h d s. (if h = 2 then Some (Other d) else None, s)) sorted_list_of_fset
        ''evt'' ''x'' (u_changes [Reg ''evt'' (1::nat), Reg ''evt'' 2] untyped_init))
       (t_emit (\<lambda>h e d s. (if h = 2 then Some (Other d) else None, s)) sorted_list_of_fset
        ''evt'' ''x'' (t_changes [Reg ''evt'' (1::nat), Reg ''evt'' 2] typed_init))"
proof -
  let ?cs = "[Reg ''evt'' (1::nat), Reg ''evt'' 2]"
  let ?cs4 = "[Reg ''evt'' (1::nat), Reg ''evt'' 2, Unreg ''evt'' 1, Unreg ''nope'' 1]"
  let ?s = "u_changes ?cs (untyped_init :: nat untyped_bus)"
  let ?t = "t_changes ?cs (typed_init :: nat typed_bus)"
  let ?ucall = "\<lambda>(h::nat) (d::string) (s::nat untyped_bus). (if h = 2 then Some (Other d) else None, s)"
  let ?tcall = "\<lambda>(h::nat) (e::string) (d::string) (s::nat typed_bus). (if h = 2 then Some (Other d) else None, s)"
  note T = typed_untyped_equivalent[of ?cs ?s ?t "Unreg ''nope'' 1" ?ucall "''x''" ?tcall "''evt''" sorted_list_of_fset]
  note T4 = typed_untyped_equivalent[of ?cs4 ?s ?t "Unreg ''nope'' 1" ?ucall "''x''" ?tcall "''evt''" sorted_list_of_fset]
  have st: "same_registry ?s ?t" by (rule T[THEN conjunct1])
  have st4: "same_registry (u_changes ?cs4 untyped_init) (t_changes ?cs4 typed_init)"
    by (rule T4[THEN conjunct1])
  have calls: "\<forall>h s1 t1. same_registry s1 t1 \<longrightarrow> same_outcome (?ucall h ''x'' s1) (?tcall h ''evt'' ''x'' t1)"
    by (simp add: same_outcome_def)
  have c: "same_outcome (u_change (Unreg ''nope'' 1) ?s) (t_change (Unreg ''nope'' 1) ?t)"
    by (rule T[THEN conjunct2, THEN conjunct2, THEN conjunct2, THEN conjunct1, THEN mp, OF st])
  note E = T[THEN conjunct2, THEN conjunct2, THEN conjunct2, THEN conjunct2, THEN mp, OF conjI[OF st calls]]
  show ?thesis using st4 c E[THEN conjunct2, THEN conjunct1] E[THEN conjunct2, THEN conjunct2]
    by (intro conjI)
qed

section \<open>Emission from inside a handler\<close>




end
